theory Spec2Isabelle
  imports Main
begin

section \<open>Tour image lifecycle: \<open>controllers/tourControllerAdvanced.js\<close>\<close>

subsection \<open>Node's \<open>path\<close> module (POSIX flavour)\<close>

text \<open>
  \<open>path.basename\<close> and \<open>path.join\<close> belong to the Node runtime, not to the repository.
  They are written out here after the algorithms of \<open>path.posix\<close>: \<open>basename\<close> drops
  trailing separators and keeps what follows the last remaining separator; \<open>join\<close>
  glues the non-empty arguments with a separator and normalises the result
  (\<open>path_normalize\<close> is \<open>path.posix.normalize\<close>, \<open>normalizeString\<close> its helper on the
  segments between separators), resolving the segments \<open>.\<close> and \<open>..\<close>.
\<close>

definition slash :: char where
  "slash = CHR ''/''"

definition basename :: "string \<Rightarrow> string" where
  "basename p =
     (let q = dropWhile (\<lambda>c. c = slash) (rev p)
      in rev (takeWhile (\<lambda>c. c \<noteq> slash) q))"

fun segments :: "string \<Rightarrow> string list" where
  "segments [] = [[]]"
| "segments (c # cs) =
     (if c = slash then [] # segments cs
      else (case segments cs of [] \<Rightarrow> [[c]] | s # ss \<Rightarrow> (c # s) # ss))"

fun normalizeString :: "bool \<Rightarrow> string list \<Rightarrow> string list \<Rightarrow> string list" where
  "normalizeString allowAboveRoot res [] = rev res"
| "normalizeString allowAboveRoot res (s # ss) =
     (if s = [] \<or> s = ''.'' then normalizeString allowAboveRoot res ss
      else if s = ''..'' then
        (case res of
           r # rs \<Rightarrow>
             (if r \<noteq> ''..'' then normalizeString allowAboveRoot rs ss
              else if allowAboveRoot then normalizeString allowAboveRoot (''..'' # res) ss
              else normalizeString allowAboveRoot res ss)
         | [] \<Rightarrow>
             (if allowAboveRoot then normalizeString allowAboveRoot [''..''] ss
              else normalizeString allowAboveRoot [] ss))
      else normalizeString allowAboveRoot (s # res) ss)"

fun unsegments :: "string list \<Rightarrow> string" where
  "unsegments [] = []"
| "unsegments [s] = s"
| "unsegments (s # t # ss) = s @ slash # unsegments (t # ss)"

definition path_normalize :: "string \<Rightarrow> string" where
  "path_normalize p =
     (if p = [] then ''.''
      else
        (let isAbsolute = (hd p = slash);
             trailingSeparator = (last p = slash);
             q = unsegments (normalizeString (\<not> isAbsolute) [] (segments p))
         in if q = [] then (if isAbsolute then ''/'' else if trailingSeparator then ''./'' else ''.'')
            else (if isAbsolute then ''/'' else []) @ q @ (if trailingSeparator then ''/'' else [])))"

definition path_join :: "string list \<Rightarrow> string" where
  "path_join args =
     (case filter (\<lambda>a. a \<noteq> []) args of
        [] \<Rightarrow> ''.''
      | a # as \<Rightarrow> path_normalize (unsegments (a # as)))"

subsection \<open>Helper paths\<close>

text \<open>\<open>TOURS_DIR = path.join(process.cwd(), 'public', 'img', 'tours')\<close>; the working
  directory of the process is a parameter.\<close>

definition TOURS_DIR :: "string \<Rightarrow> string" where
  "TOURS_DIR cwd = path_join [cwd, ''public'', ''img'', ''tours'']"

text \<open>\<open>safeJoinInTours = (filename) => path.join(TOURS_DIR, path.basename(filename || ''))\<close>.
  The empty string is the only falsy string, so \<open>filename || ''\<close> is written as a test
  for emptiness.\<close>

definition safeJoinInTours :: "string \<Rightarrow> string \<Rightarrow> string" where
  "safeJoinInTours cwd filename =
     path_join [TOURS_DIR cwd, basename (if filename \<noteq> [] then filename else [])]"

subsection \<open>Values, requests and collaborators\<close>

text \<open>A parsed request body is an object: a finite map from field names to values.\<close>

datatype jsval = JNull | JBool bool | JNum int | JStr string | JArr "jsval list"

type_synonym body = "string \<rightharpoonup> jsval"

text \<open>A file held in memory by multer (\<open>multer.memoryStorage()\<close>).\<close>

record upload =
  mimetype :: string
  buffer :: "nat list"

text \<open>\<open>req.params.id\<close>, \<open>req.body\<close> and \<open>req.files\<close>; \<open>req.files\<close> is undefined
  (\<open>None\<close>) or an object keyed by the upload field's name.\<close>

record request =
  params_id :: string
  body :: body
  files :: "(string \<rightharpoonup> upload list) option"

text \<open>The two fields of a \<open>Tour\<close> document the controller reads (schema: \<open>imageCover\<close> a
  String, \<open>images\<close> an array of String). \<open>None\<close> stands for a field that is undefined
  or null on the document.\<close>

record tour =
  imageCover :: "string option"
  images :: "string list option"

text \<open>What a call of the record store gives back: it rejects (the awaited promise
  throws), resolves to \<open>null\<close>, or resolves to a document.\<close>

datatype 'a db_result = DbThrows string | DbNull | DbDoc 'a

text \<open>An error handed to \<open>next\<close>: \<open>new AppError(message, statusCode)\<close>, or an exception
  thrown by a library or the runtime and caught by \<open>catchAsync\<close>.\<close>

datatype error = AppError string nat | Exn string

text \<open>
  The collaborators of the controller, as the environment of a request:
  the process's working directory; whether the sharp pipeline
  \<open>sharp(buffer).resize(2000, 1333).toFormat('jpeg').jpeg({quality: 90}).toFile(path)\<close>
  succeeds; the answers of \<open>Tour.findById(id).select('imageCover images')\<close> and of
  \<open>Tour.findByIdAndUpdate(id, body, {new: true, runValidators: true})\<close>; and the reason,
  if any, for which \<open>fs.promises.unlink\<close> fails on an existing path (permissions, I/O,
  a directory).
\<close>

record env =
  cwd :: string
  toFile :: "nat list \<Rightarrow> string \<Rightarrow> bool"
  findById :: "string \<Rightarrow> tour db_result"
  findByIdAndUpdate :: "string \<Rightarrow> body \<Rightarrow> tour db_result"
  unlink_error :: "string \<Rightarrow> string option"

subsection \<open>File names\<close>

text \<open>A template literal prints a non-negative integer below \<open>10^21\<close> in decimal;
  \<open>Date.now()\<close> and the gallery index are such numbers.\<close>

definition digit_char :: "nat \<Rightarrow> char" where
  "digit_char d = ''0123456789'' ! d"

fun show_nat :: "nat \<Rightarrow> string" where
  "show_nat n = (if n < 10 then [digit_char n] else show_nat (n div 10) @ [digit_char (n mod 10)])"

declare show_nat.simps [simp del]

text \<open>\<open>`tour-${req.params.id}-${now}-cover.jpeg`\<close>\<close>

definition coverName :: "string \<Rightarrow> nat \<Rightarrow> string" where
  "coverName tid now = ''tour-'' @ tid @ ''-'' @ show_nat now @ ''-cover.jpeg''"

text \<open>\<open>`tour-${req.params.id}-${now}-${i + 1}.jpeg`\<close>, for the callback's index \<open>i\<close>.\<close>

definition galleryName :: "string \<Rightarrow> nat \<Rightarrow> nat \<Rightarrow> string" where
  "galleryName tid now i = ''tour-'' @ tid @ ''-'' @ show_nat now @ ''-'' @ show_nat (i + 1) @ ''.jpeg''"

subsection \<open>\<open>resizeTourImages\<close>\<close>

text \<open>
  \<open>req.files.images.map(async (file, i) => ...)\<close> starts every callback in upload order;
  each computes its file name, starts the sharp pipeline and suspends at \<open>await\<close>.
  The callbacks resume one by one, in the order in which their pipelines finish, and
  that order belongs to the environment. A schedule \<open>sched\<close> names it: the indices it
  lists finish first, in the order of their first occurrence, and every callback it
  does not list finishes afterwards. Every order of completion of \<open>n\<close> callbacks is
  \<open>completion_order n sched\<close> for some schedule (itself).
\<close>

definition completion_order :: "nat \<Rightarrow> nat list \<Rightarrow> nat list" where
  "completion_order n sched =
     rev (remdups (rev (filter (\<lambda>i. i < n) sched))) @ filter (\<lambda>i. i \<notin> set sched) [0..<n]"

text \<open>
  The callbacks of the gallery, resumed in the order \<open>is\<close>. A callback whose pipeline
  succeeded has written its file and pushes its name onto \<open>newBody.images\<close>
  (\<open>imgs\<close>); the first pipeline that fails rejects \<open>Promise.all\<close>, and the handler
  leaves through \<open>catchAsync\<close>.
\<close>

fun gallery :: "env \<Rightarrow> string \<Rightarrow> nat \<Rightarrow> upload list \<Rightarrow> nat list \<Rightarrow> string set \<Rightarrow> string list
    \<Rightarrow> (error + string list) \<times> string set" where
  "gallery e tid now fls [] store imgs = (Inr imgs, store)"
| "gallery e tid now fls (i # is) store imgs =
     (let filename = galleryName tid now i;
          dest = path_join [TOURS_DIR (cwd e), filename]
      in if toFile e (buffer (fls ! i)) dest
         then gallery e tid now fls is (insert dest store) (imgs @ [filename])
         else (Inl (Exn ''sharp''), store))"

text \<open>
  The middleware. \<open>now\<close> is the value of \<open>Date.now()\<close>, read once; \<open>store\<close> is the set of
  paths present in the image store. The result is the argument of \<open>next\<close> (an error,
  or none and the request as it goes on to the next middleware) and the image store.
\<close>

definition resizeTourImages :: "env \<Rightarrow> nat \<Rightarrow> nat list \<Rightarrow> request \<Rightarrow> string set
    \<Rightarrow> (error + request) \<times> string set" where
  "resizeTourImages e now sched req store =
     (case files req of
        None \<Rightarrow> (Inr req, store)
      | Some fl \<Rightarrow>
          if fl ''imageCover'' = None \<and> fl ''images'' = None then (Inr req, store)
          else
            (let cover =
               (case fl ''imageCover'' of
                  Some (f # _) \<Rightarrow>
                    (let filename = coverName (params_id req) now;
                         dest = path_join [TOURS_DIR (cwd e), filename]
                     in if toFile e (buffer f) dest
                        then (Inr [''imageCover'' \<mapsto> JStr filename], insert dest store)
                        else (Inl (Exn ''sharp''), store))
                | _ \<Rightarrow> (Inr Map.empty, store))
             in case cover of
                  (Inl err, store1) \<Rightarrow> (Inl err, store1)
                | (Inr newBody, store1) \<Rightarrow>
                    (case fl ''images'' of
                       Some (f # fs) \<Rightarrow>
                         (case gallery e (params_id req) now (f # fs)
                                 (completion_order (length (f # fs)) sched) store1 [] of
                            (Inl err, store2) \<Rightarrow> (Inl err, store2)
                          | (Inr imgs, store2) \<Rightarrow>
                              (Inr (req\<lparr>body := body req ++ newBody(''images'' \<mapsto> JArr (map JStr imgs))\<rparr>),
                               store2))
                     | _ \<Rightarrow> (Inr (req\<lparr>body := body req ++ newBody\<rparr>), store1))))"

subsection \<open>The image store and \<open>safeUnlink\<close>\<close>

text \<open>What a request does to the outside, in the order in which it does it.\<close>

datatype event =
    DbFind string
  | DbUpdate string
  | FsAccess string
  | FsUnlink string
  | ConsoleError string string

text \<open>The image store (the set of paths present on disk) and the calls issued so far.\<close>

record world =
  disk :: "string set"
  trace :: "event list"

text \<open>The object \<open>safeUnlink\<close> resolves to: \<open>{ ok: true }\<close>, \<open>{ ok: true, skipped: true }\<close>
  or \<open>{ ok: false, error: err.message }\<close>.\<close>

datatype unlink_result = Unlinked | Skipped | Failed string

text \<open>
  \<open>fs.promises.unlink\<close>: it fails for the environment's reason, or with \<open>ENOENT\<close> on a
  path that is not there; otherwise the path is gone afterwards.
\<close>

definition unlink :: "env \<Rightarrow> string set \<Rightarrow> string \<Rightarrow> string + string set" where
  "unlink e d p =
     (case unlink_error e p of
        Some msg \<Rightarrow> Inl msg
      | None \<Rightarrow> if p \<in> d then Inr (d - {p}) else Inl ''ENOENT'')"

text \<open>\<open>fileExists\<close>: \<open>fs.promises.access\<close> succeeds on a path that is there.\<close>

definition fileExists :: "world \<Rightarrow> string \<Rightarrow> bool" where
  "fileExists w fullPath = (fullPath \<in> disk w)"

text \<open>
  \<open>safeUnlink\<close> is an async function with two suspension points, \<open>await fileExists\<close>
  and \<open>await fsp.unlink\<close>. A call is at one of them or has resolved.
\<close>

datatype unlink_call = AwaitAccess string | AwaitUnlink string | Settled unlink_result

text \<open>The synchronous start of \<open>safeUnlink(fullPath)\<close>: the guard \<open>!fullPath\<close>, then
  \<open>fileExists\<close> issues \<open>fsp.access\<close>.\<close>

fun safeUnlink_start :: "string list \<Rightarrow> world \<Rightarrow> unlink_call list \<times> world" where
  "safeUnlink_start [] w = ([], w)"
| "safeUnlink_start (fullPath # rest) w =
     (if fullPath = [] then
        (case safeUnlink_start rest w of (ts, w') \<Rightarrow> (Settled Skipped # ts, w'))
      else
        (case safeUnlink_start rest (w\<lparr>trace := trace w @ [FsAccess fullPath]\<rparr>) of
           (ts, w') \<Rightarrow> (AwaitAccess fullPath # ts, w')))"

text \<open>
  One call of \<open>safeUnlink\<close> resumed when the operation it awaits has completed.
  After \<open>fileExists\<close>: a missing path resolves to \<open>{ ok: true, skipped: true }\<close>, an
  existing one has \<open>fsp.unlink\<close> issued. After \<open>fsp.unlink\<close>: success resolves to
  \<open>{ ok: true }\<close>; a failure is caught, logged with \<open>console.error\<close> and resolves to
  \<open>{ ok: false, error }\<close>.
\<close>

fun safeUnlink_resume :: "env \<Rightarrow> unlink_call \<Rightarrow> world \<Rightarrow> unlink_call \<times> world" where
  "safeUnlink_resume e (AwaitAccess fullPath) w =
     (if fileExists w fullPath
      then (AwaitUnlink fullPath, w\<lparr>trace := trace w @ [FsUnlink fullPath]\<rparr>)
      else (Settled Skipped, w))"
| "safeUnlink_resume e (AwaitUnlink fullPath) w =
     (case unlink e (disk w) fullPath of
        Inr d \<Rightarrow> (Settled Unlinked, w\<lparr>disk := d\<rparr>)
      | Inl msg \<Rightarrow> (Settled (Failed msg), w\<lparr>trace := trace w @ [ConsoleError fullPath msg]\<rparr>))"
| "safeUnlink_resume e (Settled r) w = (Settled r, w)"

text \<open>
  The calls of \<open>toDelete.map((absPath) => safeUnlink(absPath))\<close> run interleaved: the
  schedule lists, completion by completion, the index of the call whose awaited
  operation completes next (an index out of range, or of a call that has resolved,
  completes nothing).
\<close>

fun run :: "env \<Rightarrow> nat list \<Rightarrow> unlink_call list \<Rightarrow> world \<Rightarrow> unlink_call list \<times> world" where
  "run e [] ts w = (ts, w)"
| "run e (i # is) ts w =
     (if i < length ts
      then (case safeUnlink_resume e (ts ! i) w of (t, w') \<Rightarrow> run e is (ts[i := t]) w')
      else run e is ts w)"

text \<open>
  \<open>await Promise.allSettled(toDelete.map(...))\<close>: every call is started, the pending
  operations complete in the order of the schedule, and whatever the schedule leaves
  pending completes afterwards, in array order (each call awaits at most two
  operations, and an operation of the file system always completes).
\<close>

definition allSettled :: "env \<Rightarrow> nat list \<Rightarrow> string list \<Rightarrow> world \<Rightarrow> unlink_call list \<times> world" where
  "allSettled e sched paths w =
     (case safeUnlink_start paths w of
        (ts, w') \<Rightarrow> run e (sched @ [0..<length ts] @ [0..<length ts]) ts w')"

subsection \<open>\<open>updateTour\<close>\<close>

text \<open>
  The loop \<open>for (const oldName of before.images)\<close>, pushing onto \<open>toDelete\<close> (\<open>acc\<close>).
  \<open>updated.images.includes\<close> throws a TypeError when \<open>updated.images\<close> is not there.
\<close>

fun old_gallery :: "string \<Rightarrow> tour \<Rightarrow> string list \<Rightarrow> string list \<Rightarrow> error + string list" where
  "old_gallery dir updated [] acc = Inr acc"
| "old_gallery dir updated (oldName # rest) acc =
     (if oldName \<noteq> [] then
        (case images updated of
           None \<Rightarrow> Inl (Exn ''TypeError'')
         | Some new \<Rightarrow>
             if oldName \<notin> set new
             then old_gallery dir updated rest (acc @ [safeJoinInTours dir oldName])
             else old_gallery dir updated rest acc)
      else old_gallery dir updated rest acc)"

text \<open>
  Step 3 of the handler, the array \<open>toDelete\<close>. \<open>Object.prototype.hasOwnProperty.call\<close>
  asks whether the body has the key; a string is truthy when it is not empty;
  \<open>Array.isArray(before.images) && before.images.length\<close> holds of a non-empty array.
\<close>

definition toDelete :: "string \<Rightarrow> body \<Rightarrow> tour \<Rightarrow> tour \<Rightarrow> error + string list" where
  "toDelete dir b bef updated =
     (let cover =
        (if b ''imageCover'' \<noteq> None then
           (case imageCover bef of
              Some c \<Rightarrow>
                if c \<noteq> [] \<and> imageCover bef \<noteq> imageCover updated
                then [safeJoinInTours dir c] else []
            | None \<Rightarrow> [])
         else [])
      in if b ''images'' \<noteq> None then
           (case images bef of
              Some old \<Rightarrow> if old \<noteq> [] then old_gallery dir updated old cover else Inr cover
            | None \<Rightarrow> Inr cover)
         else Inr cover)"

text \<open>What the handler does with the request: \<open>next(err)\<close>, or
  \<open>res.status(code).json({ status: 'success', data: { data: updated } })\<close>.\<close>

datatype response = NextError error | Json nat tour

definition updateTour :: "env \<Rightarrow> nat list \<Rightarrow> request \<Rightarrow> world \<Rightarrow> response \<times> world" where
  "updateTour e sched req w =
     (let w1 = w\<lparr>trace := trace w @ [DbFind (params_id req)]\<rparr>
      in case findById e (params_id req) of
           DbThrows msg \<Rightarrow> (NextError (Exn msg), w1)
         | DbNull \<Rightarrow> (NextError (AppError ''No tour found with that ID'' 404), w1)
         | DbDoc bef \<Rightarrow>
             (let w2 = w1\<lparr>trace := trace w1 @ [DbUpdate (params_id req)]\<rparr>
              in case findByIdAndUpdate e (params_id req) (body req) of
                   DbThrows msg \<Rightarrow> (NextError (Exn msg), w2)
                 | DbNull \<Rightarrow> (NextError (AppError ''Failed to update the tour'' 500), w2)
                 | DbDoc updated \<Rightarrow>
                     (case toDelete (cwd e) (body req) bef updated of
                        Inl err \<Rightarrow> (NextError err, w2)
                      | Inr paths \<Rightarrow>
                          if paths \<noteq> []
                          then (Json 200 updated, snd (allSettled e sched paths w2))
                          else (Json 200 updated, w2))))"

subsection \<open>Concrete scenarios\<close>

text \<open>Collaborators with fixed answers: every pipeline of sharp succeeds, the record
  store answers \<open>found\<close> to the read and \<open>written\<close> to the update, and \<open>failing\<close> gives the
  paths on which \<open>unlink\<close> fails. The process runs in \<open>/app\<close>.\<close>

definition stub_env :: "tour db_result \<Rightarrow> tour db_result \<Rightarrow> (string \<Rightarrow> string option) \<Rightarrow> env" where
  "stub_env found written failing =
     \<lparr>cwd = ''/app'', toFile = (\<lambda>buf dest. True), findById = (\<lambda>tid. found),
      findByIdAndUpdate = (\<lambda>tid b. written), unlink_error = failing\<rparr>"

text \<open>The scenario of the specification: a tour with a cover and two gallery images,
  all three replaced by one request.\<close>

definition ex_before :: tour where
  "ex_before = \<lparr>imageCover = Some ''tour-7-100-cover.jpeg'',
                 images = Some [''tour-7-100-1.jpeg'', ''tour-7-100-2.jpeg'']\<rparr>"


definition ex_request :: request where
  "ex_request =
     \<lparr>params_id = ''7'',
      body = [''imageCover'' \<mapsto> JStr ''tour-7-200-cover.jpeg'',
              ''images'' \<mapsto> JArr [JStr ''tour-7-200-1.jpeg'']],
      files = None\<rparr>"

definition ex_world :: world where
  "ex_world =
     \<lparr>disk = {''/app/public/img/tours/tour-7-100-cover.jpeg'',
              ''/app/public/img/tours/tour-7-100-1.jpeg'',
              ''/app/public/img/tours/tour-7-100-2.jpeg'',
              ''/app/public/img/tours/tour-7-200-cover.jpeg'',
              ''/app/public/img/tours/tour-7-200-1.jpeg''},
      trace = []\<rparr>"

text \<open>A request that uploads a cover and two gallery images, with a client-sent
  \<open>imageCover\<close> text field; and the same request without any file.\<close>

definition ex_files :: "string \<rightharpoonup> upload list" where
  "ex_files =
     [''imageCover'' \<mapsto> [\<lparr>mimetype = ''image/png'', buffer = [137, 80, 78, 71]\<rparr>],
      ''images'' \<mapsto> [\<lparr>mimetype = ''image/jpeg'', buffer = [255, 216, 1]\<rparr>,
                       \<lparr>mimetype = ''image/jpeg'', buffer = [255, 216, 2]\<rparr>]]"

definition ex_upload_request :: request where
  "ex_upload_request =
     \<lparr>params_id = ''7'',
      body = [''name'' \<mapsto> JStr ''The Forest Hiker'', ''imageCover'' \<mapsto> JStr ''client.jpeg''],
      files = Some ex_files\<rparr>"

definition ex_plain_request :: request where
  "ex_plain_request =
     \<lparr>params_id = ''7'',
      body = [''name'' \<mapsto> JStr ''The Forest Hiker'', ''imageCover'' \<mapsto> JStr ''client.jpeg''],
      files = Some Map.empty\<rparr>"

text \<open>A request that installs a new cover and names the old cover as the only gallery
  image; the document the record store returns for it.\<close>

definition ex_promoted :: tour where
  "ex_promoted = \<lparr>imageCover = Some ''tour-7-200-cover.jpeg'', images = Some [''tour-7-100-cover.jpeg'']\<rparr>"

definition ex_promote_request :: request where
  "ex_promote_request =
     \<lparr>params_id = ''7'',
      body = [''imageCover'' \<mapsto> JStr ''tour-7-200-cover.jpeg'',
              ''images'' \<mapsto> JArr [JStr ''tour-7-100-cover.jpeg'']],
      files = None\<rparr>"



definition ex_paths :: "string list" where
  "ex_paths = [''/app/public/img/tours/tour-7-100-cover.jpeg'',
               ''/app/public/img/tours/tour-7-100-1.jpeg'',
               ''/app/public/img/tours/tour-7-100-2.jpeg'']"


text \<open>A tour whose cover is also its first gallery image; the update installs a new
  cover and keeps that image as the only gallery image.\<close>

definition ex_shared_before :: tour where
  "ex_shared_before = \<lparr>imageCover = Some ''a.jpeg'', images = Some [''a.jpeg'', ''b.jpeg'']\<rparr>"

definition ex_shared_updated :: tour where
  "ex_shared_updated = \<lparr>imageCover = Some ''c.jpeg'', images = Some [''a.jpeg'']\<rparr>"

definition ex_shared_request :: request where
  "ex_shared_request =
     \<lparr>params_id = ''7'',
      body = [''imageCover'' \<mapsto> JStr ''c.jpeg'', ''images'' \<mapsto> JArr [JStr ''a.jpeg'']],
      files = None\<rparr>"

definition ex_shared_world :: world where
  "ex_shared_world =
     \<lparr>disk = {''/app/public/img/tours/a.jpeg'', ''/app/public/img/tours/b.jpeg'',
              ''/app/public/img/tours/c.jpeg''},
      trace = []\<rparr>"

subsection \<open>Invariants of the cleanup\<close>

text \<open>How far a call of \<open>safeUnlink\<close> has come.\<close>

fun progress :: "unlink_call \<Rightarrow> nat" where
  "progress (AwaitAccess p) = 0"
| "progress (AwaitUnlink p) = 1"
| "progress (Settled r) = 2"

text \<open>What the state of the call for path \<open>p\<close> says about the calls issued so far,
  about the image store now and about the image store \<open>d0\<close> at the start of the
  cleanup.\<close>

fun call_ok :: "env \<Rightarrow> string set \<Rightarrow> world \<Rightarrow> string \<Rightarrow> unlink_call \<Rightarrow> bool" where
  "call_ok e d0 w p (AwaitAccess q) = (q = p \<and> FsAccess p \<in> set (trace w))"
| "call_ok e d0 w p (AwaitUnlink q) =
     (q = p \<and> FsAccess p \<in> set (trace w) \<and> p \<in> d0 \<and> FsUnlink p \<in> set (trace w))"
| "call_ok e d0 w p (Settled Skipped) = (p = [] \<or> (FsAccess p \<in> set (trace w) \<and> p \<notin> disk w))"
| "call_ok e d0 w p (Settled Unlinked) =
     (FsAccess p \<in> set (trace w) \<and> p \<in> d0 \<and> FsUnlink p \<in> set (trace w) \<and> p \<notin> disk w \<and>
      unlink_error e p = None)"
| "call_ok e d0 w p (Settled (Failed msg)) =
     (FsAccess p \<in> set (trace w) \<and> p \<in> d0 \<and> FsUnlink p \<in> set (trace w) \<and>
      ConsoleError p msg \<in> set (trace w) \<and>
      (unlink_error e p = Some msg \<or> (unlink_error e p = None \<and> msg = ''ENOENT'' \<and> p \<notin> disk w)))"

definition cleanup_inv :: "env \<Rightarrow> string set \<Rightarrow> string list \<Rightarrow> unlink_call list \<Rightarrow> world \<Rightarrow> bool" where
  "cleanup_inv e d0 ps ts w =
     (length ts = length ps \<and> disk w \<subseteq> d0 \<and> (\<forall>i < length ps. call_ok e d0 w (ps ! i) (ts ! i)))"

section \<open>Properties\<close>

subsection \<open>File names\<close>

lemma digit_char_inj: "a < 10 \<Longrightarrow> b < 10 \<Longrightarrow> digit_char a = digit_char b \<Longrightarrow> a = b"
  using nth_eq_iff_index_eq [of "''0123456789''" a b] by (simp add: digit_char_def)

lemma digit_cases:
  "d < 10 \<Longrightarrow> d = 0 \<or> d = 1 \<or> d = 2 \<or> d = 3 \<or> d = 4 \<or> d = 5 \<or> d = 6 \<or> d = 7 \<or> d = 8 \<or> d = (9::nat)"
  by arith

lemma digit_char_not_c: "d < 10 \<Longrightarrow> digit_char d \<noteq> CHR ''c''"
  using digit_cases [of d] by (auto simp: digit_char_def)

lemma show_nat_nonempty: "show_nat n \<noteq> []"
  by (subst show_nat.simps) simp

lemma show_nat_hd: "\<exists>d r. d < 10 \<and> show_nat n = digit_char d # r"
proof (induction n rule: show_nat.induct)
  case (1 n)
  show ?case
  proof (cases "n < 10")
    case True
    then show ?thesis by (subst show_nat.simps) auto
  next
    case False
    with 1 obtain d r where "d < 10" "show_nat (n div 10) = digit_char d # r" by blast
    with False show ?thesis by (subst show_nat.simps) auto
  qed
qed

lemma show_nat_inj: "show_nat m = show_nat n \<Longrightarrow> m = n"
proof (induction m arbitrary: n rule: show_nat.induct)
  case (1 m)
  show ?case
  proof (cases "m < 10")
    case m: True
    show ?thesis
    proof (cases "n < 10")
      case True
      with m 1(2) show ?thesis
        by (simp add: show_nat.simps [of m] show_nat.simps [of n] digit_char_inj)
    next
      case False
      with m 1(2) show_nat_nonempty [of "n div 10"] show ?thesis
        by (simp add: show_nat.simps [of m] show_nat.simps [of n] Cons_eq_append_conv)
    qed
  next
    case m: False
    show ?thesis
    proof (cases "n < 10")
      case True
      with m 1(2) show_nat_nonempty [of "m div 10"] show ?thesis
        by (simp add: show_nat.simps [of m] show_nat.simps [of n] append_eq_Cons_conv)
    next
      case False
      with m 1(2) have eq: "show_nat (m div 10) = show_nat (n div 10)"
        and dg: "digit_char (m mod 10) = digit_char (n mod 10)"
        by (simp_all add: show_nat.simps [of m] show_nat.simps [of n])
      from 1(1) [OF m eq] have "m div 10 = n div 10" .
      moreover from dg have "m mod 10 = n mod 10" by (simp add: digit_char_inj)
      ultimately show ?thesis by (metis div_mult_mod_eq)
    qed
  qed
qed

lemma galleryName_inj: "galleryName tid now i = galleryName tid now j \<Longrightarrow> i = j"
  unfolding galleryName_def using show_nat_inj [of "i + 1" "j + 1"] by simp

lemma coverName_neq_galleryName: "coverName tid now \<noteq> galleryName tid now i"
proof -
  obtain d r where d: "d < 10" and s: "show_nat (i + 1) = digit_char d # r"
    using show_nat_hd by blast
  show ?thesis
    unfolding coverName_def galleryName_def using digit_char_not_c [OF d] s by auto
qed

lemma names_distinct: "distinct (coverName tid now # map (galleryName tid now) [0..<n])"
  by (auto simp: distinct_map inj_on_def coverName_neq_galleryName dest: galleryName_inj)

subsection \<open>The payload of \<open>resizeTourImages\<close>\<close>

lemma gallery_names:
  "gallery e tid now fls is st imgs = (Inr imgs', st') \<Longrightarrow> imgs' = imgs @ map (galleryName tid now) is"
proof (induction "is" arbitrary: st imgs)
  case Nil
  then show ?case by simp
next
  case (Cons i "is")
  then show ?case by (fastforce simp: Let_def split: if_splits)
qed

lemma completion_order_set: "set (completion_order n sched) = {0..<n}"
  by (auto simp: completion_order_def)

lemma completion_order_distinct: "distinct (completion_order n sched)"
  by (auto simp: completion_order_def)

lemma completion_order_length: "length (completion_order n sched) = n"
proof -
  have "card (set (completion_order n sched)) = length (completion_order n sched)"
    using completion_order_distinct by (rule distinct_card)
  then show ?thesis by (simp add: completion_order_set)
qed

lemma completion_order_perm: "distinct order \<Longrightarrow> set order = {0..<n} \<Longrightarrow> completion_order n order = order"
proof -
  assume d: "distinct order" and s: "set order = {0..<n}"
  have f: "filter (\<lambda>i. i < n) order = order" using s by (auto simp: filter_id_conv)
  have "filter (\<lambda>i. i \<notin> set order) [0..<n] = []" using s by (auto simp: filter_empty_conv)
  moreover have "rev (remdups (rev order)) = order" using d by (simp add: distinct_remdups_id)
  ultimately show ?thesis by (simp add: completion_order_def f)
qed

lemma resize_payload:
  assumes r: "resizeTourImages e now sched req st = (Inr req', st')"
    and fl: "files req = Some fl"
  shows "(\<forall>f fs. fl ''imageCover'' = Some (f # fs) \<longrightarrow>
            body req' ''imageCover'' = Some (JStr (coverName (params_id req) now)))"
    and "(\<forall>g gs. fl ''images'' = Some (g # gs) \<longrightarrow>
            body req' ''images'' = Some (JArr (map (\<lambda>i. JStr (galleryName (params_id req) now i))
               (completion_order (Suc (length gs)) sched))))"
    and "fl ''imageCover'' \<in> {None, Some []} \<longrightarrow> body req' ''imageCover'' = body req ''imageCover''"
    and "fl ''images'' \<in> {None, Some []} \<longrightarrow> body req' ''images'' = body req ''images''"
    and "\<forall>k. k \<noteq> ''imageCover'' \<and> k \<noteq> ''images'' \<longrightarrow> body req' k = body req k"
    and "params_id req' = params_id req \<and> files req' = files req"
  using r fl
  by (auto simp: resizeTourImages_def Let_def map_add_def comp_def
      split: if_splits option.splits list.splits prod.splits sum.splits dest!: gallery_names)

subsection \<open>The cleanup under every schedule\<close>

lemma old_gallery_Some:
  "images updated = Some new \<Longrightarrow>
   old_gallery dir updated old acc =
     Inr (acc @ map (safeJoinInTours dir) (filter (\<lambda>n. n \<noteq> [] \<and> n \<notin> set new) old))"
  by (induction old arbitrary: acc) simp_all

lemma call_ok_mono:
  "call_ok e d0 w p t \<Longrightarrow> set (trace w) \<subseteq> set (trace w') \<Longrightarrow> disk w' \<subseteq> disk w \<Longrightarrow>
   call_ok e d0 w' p t"
  by (induction e d0 w p t rule: call_ok.induct) auto

lemma resume_trace: "safeUnlink_resume e t w = (t', w') \<Longrightarrow> set (trace w) \<subseteq> set (trace w')"
  by (cases t) (auto simp: fileExists_def split: if_splits sum.splits)

lemma resume_disk: "safeUnlink_resume e t w = (t', w') \<Longrightarrow> disk w' \<subseteq> disk w"
  by (cases t) (auto simp: unlink_def fileExists_def split: if_splits sum.splits option.splits)

lemma resume_call_ok:
  "safeUnlink_resume e t w = (t', w') \<Longrightarrow> call_ok e d0 w p t \<Longrightarrow> disk w \<subseteq> d0 \<Longrightarrow> call_ok e d0 w' p t'"
  by (induction e d0 w p t rule: call_ok.induct)
     (auto simp: unlink_def fileExists_def split: if_splits sum.splits option.splits)

lemma resume_progress: "min 2 (Suc (progress t)) \<le> progress (fst (safeUnlink_resume e t w))"
  by (cases t) (auto simp: fileExists_def split: sum.splits)

lemma resume_progress_mono: "progress t \<le> progress (fst (safeUnlink_resume e t w))"
  by (cases t) (auto simp: fileExists_def split: sum.splits)

lemma run_length: "length (fst (run e is ts w)) = length ts"
  by (induction "is" arbitrary: ts w) (auto split: prod.splits)

lemma run_append:
  "run e (xs @ ys) ts w = (case run e xs ts w of (ts', w') \<Rightarrow> run e ys ts' w')"
  by (induction xs arbitrary: ts w) (auto split: prod.splits)

lemma run_inv:
  "cleanup_inv e d0 ps ts w \<Longrightarrow> run e is ts w = (ts', w') \<Longrightarrow> cleanup_inv e d0 ps ts' w'"
proof (induction "is" arbitrary: ts w)
  case Nil
  then show ?case by simp
next
  case (Cons i "is")
  show ?case
  proof (cases "i < length ts")
    case False
    with Cons show ?thesis by simp
  next
    case True
    obtain t w1 where r: "safeUnlink_resume e (ts ! i) w = (t, w1)" by fastforce
    have len: "length ts = length ps" and dk: "disk w \<subseteq> d0"
      and gd: "\<And>j. j < length ps \<Longrightarrow> call_ok e d0 w (ps ! j) (ts ! j)"
      using Cons.prems(1) by (auto simp: cleanup_inv_def)
    have "call_ok e d0 w1 (ps ! j) (ts[i := t] ! j)" if j: "j < length ps" for j
    proof (cases "j = i")
      case True
      with j len r gd [OF j] dk show ?thesis by (simp add: resume_call_ok)
    next
      case False
      with gd [OF j] resume_trace [OF r] resume_disk [OF r] show ?thesis
        by (simp add: call_ok_mono)
    qed
    moreover have "disk w1 \<subseteq> d0" using resume_disk [OF r] dk by blast
    ultimately have "cleanup_inv e d0 ps (ts[i := t]) w1" using len by (simp add: cleanup_inv_def)
    moreover have "run e is (ts[i := t]) w1 = (ts', w')" using Cons.prems(2) True r by simp
    ultimately show ?thesis by (rule Cons.IH)
  qed
qed

lemma run_progress_mono: "j < length ts \<Longrightarrow> progress (ts ! j) \<le> progress (fst (run e is ts w) ! j)"
proof (induction "is" arbitrary: ts w)
  case Nil
  then show ?case by simp
next
  case (Cons i "is")
  show ?case
  proof (cases "i < length ts")
    case False
    with Cons show ?thesis by simp
  next
    case True
    obtain t w1 where r: "safeUnlink_resume e (ts ! i) w = (t, w1)" by fastforce
    have "progress (ts ! j) \<le> progress (ts[i := t] ! j)"
      using resume_progress_mono [of "ts ! i" e w] r Cons.prems by (cases "j = i") auto
    also have "\<dots> \<le> progress (fst (run e is (ts[i := t]) w1) ! j)"
      using Cons.prems by (intro Cons.IH) simp
    finally show ?thesis using True r by simp
  qed
qed

lemma run_progress_step:
  "j \<in> set is \<Longrightarrow> j < length ts \<Longrightarrow> min 2 (Suc (progress (ts ! j))) \<le> progress (fst (run e is ts w) ! j)"
proof (induction "is" arbitrary: ts w)
  case Nil
  then show ?case by simp
next
  case (Cons i "is")
  show ?case
  proof (cases "i < length ts")
    case False
    with Cons show ?thesis by auto
  next
    case True
    obtain t w1 where r: "safeUnlink_resume e (ts ! i) w = (t, w1)" by fastforce
    have run: "run e (i # is) ts w = run e is (ts[i := t]) w1" using True r by simp
    show ?thesis
    proof (cases "j = i")
      case True
      have "min 2 (Suc (progress (ts ! j))) \<le> progress (ts[i := t] ! j)"
        using resume_progress [of "ts ! i" e w] r True Cons.prems by simp
      also have "\<dots> \<le> progress (fst (run e is (ts[i := t]) w1) ! j)"
        using Cons.prems by (intro run_progress_mono) simp
      finally show ?thesis using run by simp
    next
      case False
      with Cons.prems have "j \<in> set is" by simp
      then have "min 2 (Suc (progress (ts[i := t] ! j))) \<le> progress (fst (run e is (ts[i := t]) w1) ! j)"
        using Cons.prems by (intro Cons.IH) simp_all
      with False run show ?thesis by simp
    qed
  qed
qed

lemma safeUnlink_start_eq:
  "safeUnlink_start ps w =
     (map (\<lambda>p. if p = [] then Settled Skipped else AwaitAccess p) ps,
      w\<lparr>trace := trace w @ map FsAccess (filter (\<lambda>p. p \<noteq> []) ps)\<rparr>)"
  by (induction ps arbitrary: w) simp_all

lemma start_inv:
  "safeUnlink_start ps w = (ts, w') \<Longrightarrow> cleanup_inv e (disk w) ps ts w'"
  by (auto simp: safeUnlink_start_eq cleanup_inv_def)

lemma resume_access:
  "safeUnlink_resume e t w = (t', w') \<Longrightarrow> FsAccess p \<in> set (trace w') \<longleftrightarrow> FsAccess p \<in> set (trace w)"
  by (cases t) (auto simp: fileExists_def split: if_splits sum.splits)

lemma run_access:
  "run e is ts w = (ts', w') \<Longrightarrow> FsAccess p \<in> set (trace w') \<longleftrightarrow> FsAccess p \<in> set (trace w)"
proof (induction "is" arbitrary: ts w)
  case Nil
  then show ?case by simp
next
  case (Cons i "is")
  then show ?case
    by (auto split: if_splits prod.splits dest: resume_access)
qed

lemma resume_frame:
  "safeUnlink_resume e t w = (t', w') \<Longrightarrow> call_ok e d0 w p t \<Longrightarrow> disk w - {p} \<subseteq> disk w'"
  by (cases t) (auto simp: unlink_def fileExists_def split: if_splits sum.splits option.splits)

lemma run_frame:
  "cleanup_inv e d0 ps ts w \<Longrightarrow> run e is ts w = (ts', w') \<Longrightarrow> disk w - set ps \<subseteq> disk w'"
proof (induction "is" arbitrary: ts w)
  case Nil
  then show ?case by auto
next
  case (Cons i "is")
  show ?case
  proof (cases "i < length ts")
    case False
    with Cons show ?thesis by simp
  next
    case True
    obtain t w1 where r: "safeUnlink_resume e (ts ! i) w = (t, w1)" by fastforce
    have run1: "run e [i] ts w = (ts[i := t], w1)" using True r by simp
    have inv1: "cleanup_inv e d0 ps (ts[i := t]) w1" using run_inv [OF Cons.prems(1) run1] .
    have rest: "run e is (ts[i := t]) w1 = (ts', w')" using Cons.prems(2) True r by simp
    have "i < length ps" "call_ok e d0 w (ps ! i) (ts ! i)"
      using Cons.prems(1) True by (auto simp: cleanup_inv_def)
    then have "disk w - {ps ! i} \<subseteq> disk w1" "ps ! i \<in> set ps"
      using resume_frame [OF r] by auto
    then have "disk w - set ps \<subseteq> disk w1 - set ps" by auto
    also have "\<dots> \<subseteq> disk w'" using Cons.IH [OF inv1 rest] by auto
    finally show ?thesis .
  qed
qed


lemma allSettled_inv: "allSettled e sched ps w = (ts, w') \<Longrightarrow> cleanup_inv e (disk w) ps ts w'"
  unfolding allSettled_def
  by (auto split: prod.splits dest: start_inv run_inv)

lemma allSettled_settled:
  assumes "allSettled e sched ps w = (ts, w')" and i: "i < length ps"
  shows "\<exists>r. ts ! i = Settled r"
proof -
  let ?n = "length ps"
  obtain ts0 w0 where s: "safeUnlink_start ps w = (ts0, w0)" by fastforce
  have l0: "length ts0 = ?n" using s by (auto simp: safeUnlink_start_eq)
  obtain ts1 w1 where r1: "run e sched ts0 w0 = (ts1, w1)" by fastforce
  obtain ts2 w2 where r2: "run e [0..<?n] ts1 w1 = (ts2, w2)" by fastforce
  obtain ts3 w3 where r3: "run e [0..<?n] ts2 w2 = (ts3, w3)" by fastforce
  have l1: "length ts1 = ?n" using run_length [of e sched ts0 w0] r1 l0 by simp
  have l2: "length ts2 = ?n" using run_length [of e "[0..<?n]" ts1 w1] r2 l1 by simp
  have "ts = ts3" using assms(1) s r1 r2 r3 l0 by (simp add: allSettled_def run_append)
  have "min 2 (Suc (progress (ts1 ! i))) \<le> progress (ts2 ! i)"
    using run_progress_step [of i "[0..<?n]" ts1 e w1] i l1 r2 by simp
  then have "1 \<le> progress (ts2 ! i)" by simp
  moreover have "min 2 (Suc (progress (ts2 ! i))) \<le> progress (ts3 ! i)"
    using run_progress_step [of i "[0..<?n]" ts2 e w2] i l2 r3 by simp
  ultimately have "2 \<le> progress (ts3 ! i)" by simp
  then show ?thesis using \<open>ts = ts3\<close> by (cases "ts3 ! i") auto
qed

lemma allSettled_access:
  "allSettled e sched ps w = (ts, w') \<Longrightarrow>
   FsAccess p \<in> set (trace w') \<longleftrightarrow> FsAccess p \<in> set (trace w) \<or> (p \<in> set ps \<and> p \<noteq> [])"
  unfolding allSettled_def
  by (auto simp: safeUnlink_start_eq dest!: run_access [where p = p])

lemma allSettled_frame:
  "allSettled e sched ps w = (ts, w') \<Longrightarrow> disk w - set ps \<subseteq> disk w' \<and> disk w' \<subseteq> disk w"
proof -
  assume a: "allSettled e sched ps w = (ts, w')"
  obtain ts0 w0 where s: "safeUnlink_start ps w = (ts0, w0)" by fastforce
  have d0: "disk w0 = disk w" using s by (auto simp: safeUnlink_start_eq)
  have r: "run e (sched @ [0..<length ts0] @ [0..<length ts0]) ts0 w0 = (ts, w')"
    using a s by (simp add: allSettled_def)
  have "disk w0 - set ps \<subseteq> disk w'" using run_frame [OF start_inv [OF s] r] d0 by simp
  moreover have "disk w' \<subseteq> disk w" using allSettled_inv [OF a] by (simp add: cleanup_inv_def)
  ultimately show ?thesis using d0 by simp
qed

lemma allSettled_gone:
  assumes a: "allSettled e sched ps w = (ts, w')"
    and p: "p \<in> set ps" "p \<noteq> []" "unlink_error e p = None"
  shows "p \<notin> disk w'"
proof -
  obtain i where i: "i < length ps" "ps ! i = p" using p(1) by (auto simp: in_set_conv_nth)
  obtain r where r: "ts ! i = Settled r" using allSettled_settled [OF a i(1)] by blast
  have "call_ok e (disk w) w' p (Settled r)"
    using allSettled_inv [OF a] i r by (auto simp: cleanup_inv_def)
  with p(2,3) show ?thesis by (cases r) auto
qed









subsection \<open>\<open>updateTour\<close>\<close>

lemma path_normalize_nonempty: "path_normalize p \<noteq> []"
  by (simp add: path_normalize_def Let_def)

lemma path_join_nonempty: "path_join args \<noteq> []"
  by (simp add: path_join_def path_normalize_nonempty split: list.splits)

lemma safeJoinInTours_nonempty: "safeJoinInTours dir n \<noteq> []"
  by (simp add: safeJoinInTours_def path_join_nonempty)

lemma toDelete_names:
  assumes "images updated = Some new"
  shows "toDelete dir b bef updated =
     Inr (map (safeJoinInTours dir)
        ((if b ''imageCover'' \<noteq> None then
            (case imageCover bef of
               Some c \<Rightarrow> if c \<noteq> [] \<and> imageCover updated \<noteq> Some c then [c] else []
             | None \<Rightarrow> [])
          else []) @
         (if b ''images'' \<noteq> None then
            (case images bef of
               Some old \<Rightarrow> filter (\<lambda>n. n \<noteq> [] \<and> n \<notin> set new) old
             | None \<Rightarrow> [])
          else [])))"
  using assms
  by (auto simp: toDelete_def Let_def old_gallery_Some split: option.splits)

lemma run_no_calls: "run e is [] w = ([], w)"
  by (induction "is") simp_all

lemma allSettled_no_paths: "allSettled e sched [] w = ([], w)"
  by (simp add: allSettled_def run_no_calls)



lemma updateTour_success:
  assumes "findById e (params_id req) = DbDoc bef"
    and "findByIdAndUpdate e (params_id req) (body req) = DbDoc updated"
    and "toDelete (cwd e) (body req) bef updated = Inr paths"
  shows "updateTour e sched req w =
     (Json 200 updated,
      snd (allSettled e sched paths
             (w\<lparr>trace := trace w @ [DbFind (params_id req), DbUpdate (params_id req)]\<rparr>)))"
  using assms by (cases "paths = []") (simp_all add: updateTour_def Let_def allSettled_no_paths)

lemma old_cover_deleted_under_every_schedule:
  "fst (updateTour (stub_env (DbDoc ex_before) (DbDoc ex_promoted) (\<lambda>p. None)) sched
          ex_promote_request ex_world) = Json 200 ex_promoted \<and>
   ''/app/public/img/tours/tour-7-100-cover.jpeg'' \<notin>
     disk (snd (updateTour (stub_env (DbDoc ex_before) (DbDoc ex_promoted) (\<lambda>p. None)) sched
                  ex_promote_request ex_world))"
proof -
  let ?e = "stub_env (DbDoc ex_before) (DbDoc ex_promoted) (\<lambda>p. None)"
  let ?w2 = "ex_world\<lparr>trace := trace ex_world @
      [DbFind (params_id ex_promote_request), DbUpdate (params_id ex_promote_request)]\<rparr>"
  have h1: "findById ?e (params_id ex_promote_request) = DbDoc ex_before"
    by (simp add: stub_env_def)
  have h2: "findByIdAndUpdate ?e (params_id ex_promote_request) (body ex_promote_request) =
      DbDoc ex_promoted"
    by (simp add: stub_env_def)
  have h3: "toDelete (cwd ?e) (body ex_promote_request) ex_before ex_promoted = Inr ex_paths"
    by code_simp
  have run: "updateTour ?e sched ex_promote_request ex_world =
      (Json 200 ex_promoted, snd (allSettled ?e sched ex_paths ?w2))"
    by (rule updateTour_success [OF h1 h2 h3])
  have a: "allSettled ?e sched ex_paths ?w2 =
      (fst (allSettled ?e sched ex_paths ?w2), snd (allSettled ?e sched ex_paths ?w2))"
    by simp
  have "''/app/public/img/tours/tour-7-100-cover.jpeg'' \<notin> disk (snd (allSettled ?e sched ex_paths ?w2))"
    by (rule allSettled_gone [OF a]) (simp_all add: ex_paths_def stub_env_def)
  with run show ?thesis by simp
qed

lemma gallery_store:
  "gallery e tid now fls is st imgs = (Inr imgs', st') \<Longrightarrow>
   st' = st \<union> (\<lambda>i. path_join [TOURS_DIR (cwd e), galleryName tid now i]) ` set is"
proof (induction "is" arbitrary: st imgs)
  case Nil
  then show ?case by simp
next
  case (Cons i "is")
  then show ?case by (fastforce simp: Let_def split: if_splits)
qed

lemma resize_store:
  assumes r: "resizeTourImages e now sched req st = (Inr req', st')"
    and fl: "files req = Some fl"
  shows "(\<forall>f fs. fl ''imageCover'' = Some (f # fs) \<longrightarrow>
            path_join [TOURS_DIR (cwd e), coverName (params_id req) now] \<in> st')"
    and "(\<forall>g gs. fl ''images'' = Some (g # gs) \<longrightarrow>
            (\<forall>i \<le> length gs. path_join [TOURS_DIR (cwd e), galleryName (params_id req) now i] \<in> st'))"
  using r fl
  by (auto simp: resizeTourImages_def Let_def completion_order_set
      split: if_splits option.splits list.splits prod.splits sum.splits dest!: gallery_store)

lemma ex_upload_result:
  "resizeTourImages (stub_env DbNull DbNull (\<lambda>p. None)) 200 sched ex_upload_request {} =
     (Inr (projr (fst (resizeTourImages (stub_env DbNull DbNull (\<lambda>p. None)) 200 sched ex_upload_request {}))),
      snd (resizeTourImages (stub_env DbNull DbNull (\<lambda>p. None)) 200 sched ex_upload_request {}))"
proof -
  let ?out = "resizeTourImages (stub_env DbNull DbNull (\<lambda>p. None)) 200 sched ex_upload_request {}"
  have "gallery (stub_env DbNull DbNull (\<lambda>p. None)) tid now fls is st imgs \<noteq> (Inl err, st')"
    for tid now fls "is" st imgs err st'
    by (induction "is" arbitrary: st imgs) (simp_all add: Let_def stub_env_def)
  then have "\<not> isl (fst ?out)"
    by (auto simp: resizeTourImages_def ex_upload_request_def ex_files_def Let_def stub_env_def
        split: prod.splits sum.splits)
  then have "fst ?out = Inr (projr (fst ?out))" by simp
  then show ?thesis by (metis prod.collapse)
qed

subsection \<open>Where \<open>safeJoinInTours\<close> lands\<close>

text \<open>For a working directory that is an absolute path: a file name whose base name is
  a plain name lands directly under the tours directory; one without a base name, or
  with the base name \<open>.\<close>, gives the tours directory itself; the base name \<open>..\<close> gives
  its parent.\<close>

lemma segments_no_slash: "slash \<notin> set s \<Longrightarrow> segments s = [s]"
  by (induction s) auto

lemma segments_append_slash: "slash \<notin> set s \<Longrightarrow> segments (s @ slash # t) = s # segments t"
  by (induction s) auto

lemma segments_unsegments:
  "ss \<noteq> [] \<Longrightarrow> \<forall>s \<in> set ss. slash \<notin> set s \<Longrightarrow> segments (unsegments ss) = ss"
proof (induction ss rule: unsegments.induct)
  case 1
  then show ?case by simp
next
  case (2 s)
  then show ?case by (simp add: segments_no_slash)
next
  case (3 s t ss)
  then show ?case by (simp add: segments_append_slash)
qed

lemma segments_slash_free: "\<forall>s \<in> set (segments p). slash \<notin> set s"
  by (induction p) (auto split: list.splits)

lemma segments_nonempty: "segments p \<noteq> []"
  by (induction p) (auto split: list.splits)

lemma unsegments_snoc: "ss \<noteq> [] \<Longrightarrow> unsegments (ss @ [b]) = unsegments ss @ slash # b"
  by (induction ss rule: unsegments.induct) auto

lemma unsegments_nonempty: "s \<in> set ss \<Longrightarrow> s \<noteq> [] \<Longrightarrow> unsegments ss \<noteq> []"
  by (induction ss rule: unsegments.induct) auto

lemma normalizeString_plain:
  "\<forall>s \<in> set ss. s \<noteq> [] \<and> s \<noteq> ''.'' \<and> s \<noteq> ''..'' \<Longrightarrow> normalizeString a res ss = rev res @ ss"
  by (induction ss arbitrary: res) auto

lemma normalizeString_append:
  "normalizeString a res (xs @ ys) = normalizeString a (rev (normalizeString a res xs)) ys"
  by (induction xs arbitrary: res) (auto split: list.splits)

lemma normalizeString_sub:
  "set (normalizeString False res ss) \<subseteq> set res \<union> {s \<in> set ss. s \<noteq> [] \<and> s \<noteq> ''.'' \<and> s \<noteq> ''..''}"
proof (induction ss arbitrary: res)
  case Nil
  then show ?case by simp
next
  case (Cons s ss)
  show ?case
  proof (cases res)
    case Nil
    with Cons [of res] Cons [of "[s]"] show ?thesis by auto
  next
    case (Cons r rs)
    with Cons.IH [of res] Cons.IH [of rs] Cons.IH [of "s # res"] show ?thesis by auto
  qed
qed

lemma basename_slash_free: "slash \<notin> set (basename p)"
  by (auto simp: basename_def Let_def dest: set_takeWhileD)

lemma segments_append: "segments (x @ slash # y) = segments x @ segments y"
proof (induction x)
  case Nil
  then show ?case by simp
next
  case (Cons c x)
  then show ?case
    using segments_nonempty [of x] by (cases "segments x") auto
qed

lemma TOURS_DIR_segments:
  assumes "wd = slash # rest"
  shows "\<exists>A. (\<forall>s \<in> set A. s \<noteq> [] \<and> s \<noteq> ''.'' \<and> s \<noteq> ''..'' \<and> slash \<notin> set s) \<and>
     TOURS_DIR wd = slash # unsegments (A @ [''public'', ''img'', ''tours''])"
proof -
  define A where "A = normalizeString False [] (segments wd)"
  define D where "D = A @ [''public'', ''img'', ''tours'']"
  let ?J = "wd @ slash # ''public/img/tours''"
  have J: "unsegments [wd, ''public'', ''img'', ''tours''] = ?J"
    by (simp add: slash_def)
  have tail: "segments ''public/img/tours'' = [''public'', ''img'', ''tours'']"
    by code_simp
  have seg: "segments ?J = segments wd @ [''public'', ''img'', ''tours'']"
    using segments_append [of wd "''public/img/tours''"] tail by simp
  have ns: "normalizeString False [] (segments ?J) = D"
    unfolding seg normalizeString_append [of False "[]" "segments wd"] A_def [symmetric] D_def
    by (rule trans [OF normalizeString_plain]) simp_all
  have A: "\<forall>s \<in> set A. s \<noteq> [] \<and> s \<noteq> ''.'' \<and> s \<noteq> ''..'' \<and> slash \<notin> set s"
    using normalizeString_sub [of "[]" "segments wd"] segments_slash_free [of wd]
    unfolding A_def by auto
  have q: "unsegments D \<noteq> []"
    using unsegments_nonempty [of "''tours''" D] by (simp add: D_def)
  have hd: "hd ?J = slash" and last: "last ?J \<noteq> slash" and J_ne: "?J \<noteq> []"
    using assms by (simp_all add: slash_def)
  have "path_normalize ?J = slash # unsegments D"
    using hd last J_ne q ns by (simp add: path_normalize_def Let_def slash_def)
  then have "TOURS_DIR wd = slash # unsegments D"
    using assms J by (simp add: TOURS_DIR_def path_join_def)
  with A show ?thesis unfolding D_def by blast
qed

lemma TOURS_DIR_absolute:
  assumes "wd = slash # rest"
  shows "\<exists>D. D \<noteq> [] \<and> (\<forall>s \<in> set D. s \<noteq> [] \<and> s \<noteq> ''.'' \<and> s \<noteq> ''..'' \<and> slash \<notin> set s) \<and>
     TOURS_DIR wd = slash # unsegments D"
proof -
  obtain A where A: "\<forall>s \<in> set A. s \<noteq> [] \<and> s \<noteq> ''.'' \<and> s \<noteq> ''..'' \<and> slash \<notin> set s"
    and T: "TOURS_DIR wd = slash # unsegments (A @ [''public'', ''img'', ''tours''])"
    using TOURS_DIR_segments [OF assms] by blast
  have "\<forall>s \<in> set (A @ [''public'', ''img'', ''tours'']).
      s \<noteq> [] \<and> s \<noteq> ''.'' \<and> s \<noteq> ''..'' \<and> slash \<notin> set s"
    using A by (auto simp: slash_def)
  with T show ?thesis by (intro exI [of _ "A @ [''public'', ''img'', ''tours'']"]) simp
qed

lemma safeJoinInTours_plain_name:
  assumes wd: "wd = slash # rest"
    and b: "basename filename \<noteq> []" "basename filename \<noteq> ''.''" "basename filename \<noteq> ''..''"
  shows "safeJoinInTours wd filename = TOURS_DIR wd @ slash # basename filename"
proof -
  define b where "b = basename filename"
  obtain D where ne: "D \<noteq> []"
    and D: "\<forall>s \<in> set D. s \<noteq> [] \<and> s \<noteq> ''.'' \<and> s \<noteq> ''..'' \<and> slash \<notin> set s"
    and T: "TOURS_DIR wd = slash # unsegments D"
    using TOURS_DIR_absolute [OF wd] by blast
  have bs: "slash \<notin> set b" "b \<noteq> []" "b \<noteq> ''.''" "b \<noteq> ''..''"
    using b basename_slash_free [of filename] by (simp_all add: b_def)
  have f: "filename \<noteq> []" using b(1) by (auto simp: basename_def)
  let ?P = "slash # unsegments (D @ [b])"
  have P: "TOURS_DIR wd @ slash # b = ?P"
    using T ne by (simp add: unsegments_snoc)
  have Db: "\<forall>s \<in> set (D @ [b]). s \<noteq> [] \<and> s \<noteq> ''.'' \<and> s \<noteq> ''..''"
    and Dsl: "\<forall>s \<in> set (D @ [b]). slash \<notin> set s"
    using D bs by auto
  have seg: "segments ?P = [] # (D @ [b])"
    using segments_unsegments [of "D @ [b]"] Dsl by simp
  have ns: "normalizeString False [] (segments ?P) = D @ [b]"
    unfolding seg using normalizeString_plain [OF Db, of False "[]"] by simp
  have last: "last ?P \<noteq> slash"
    using bs ne by (simp add: unsegments_snoc) (metis last_in_set)
  have q: "unsegments (D @ [b]) \<noteq> []"
    using ne by (simp add: unsegments_snoc)
  have "path_normalize ?P = ?P"
    using last q ns by (simp add: path_normalize_def Let_def slash_def)
  moreover have "path_join [TOURS_DIR wd, b] = path_normalize (TOURS_DIR wd @ slash # b)"
    using T bs by (simp add: path_join_def)
  ultimately have "path_join [TOURS_DIR wd, b] = TOURS_DIR wd @ slash # b"
    using P by simp
  then show ?thesis
    using f by (simp add: safeJoinInTours_def b_def)
qed

lemma safeJoinInTours_dot_dot:
  assumes wd: "wd = slash # rest" and b: "basename filename = ''..''"
  shows "TOURS_DIR wd = safeJoinInTours wd filename @ ''/tours''"
proof -
  obtain A where A: "\<forall>s \<in> set A. s \<noteq> [] \<and> s \<noteq> ''.'' \<and> s \<noteq> ''..'' \<and> slash \<notin> set s"
    and T: "TOURS_DIR wd = slash # unsegments (A @ [''public'', ''img'', ''tours''])"
    using TOURS_DIR_segments [OF wd] by blast
  let ?D = "A @ [''public'', ''img'', ''tours'']"
  let ?U = "A @ [''public'', ''img'']"
  let ?P = "slash # unsegments (?D @ [''..''])"
  have f: "filename \<noteq> []" using b by (auto simp: basename_def)
  have D: "\<forall>s \<in> set ?D. s \<noteq> [] \<and> s \<noteq> ''.'' \<and> s \<noteq> ''..''"
    and Dsl: "\<forall>s \<in> set (?D @ [''..'']). slash \<notin> set s"
    using A by (auto simp: slash_def)
  have P: "TOURS_DIR wd @ slash # ''..'' = ?P"
    using T unsegments_snoc [of ?D "''..''"] by simp
  have seg: "segments ?P = [] # (?D @ [''..''])"
    using segments_unsegments [of "?D @ [''..'']"] Dsl by simp
  have "normalizeString False [] (?D @ [''..'']) = normalizeString False (rev ?D) [''..'']"
    unfolding normalizeString_append [of False "[]" ?D] normalizeString_plain [OF D] by simp
  also have "\<dots> = ?U" by simp
  finally have ns: "normalizeString False [] (segments ?P) = ?U"
    unfolding seg by simp
  have q: "unsegments ?U \<noteq> []"
    using unsegments_nonempty [of "''img''" ?U] by simp
  have last: "last ?P \<noteq> slash"
    using unsegments_snoc [of ?D "''..''"] by (simp add: slash_def)
  have "path_normalize ?P = slash # unsegments ?U"
    using last q ns by (simp add: path_normalize_def Let_def slash_def)
  moreover have "path_join [TOURS_DIR wd, ''..''] = path_normalize (TOURS_DIR wd @ slash # ''..'')"
    using T by (simp add: path_join_def)
  ultimately have "safeJoinInTours wd filename = slash # unsegments ?U"
    using P f b by (simp add: safeJoinInTours_def)
  moreover have "unsegments ?D = unsegments ?U @ slash # ''tours''"
    using unsegments_snoc [of ?U "''tours''"] by simp
  ultimately show ?thesis using T by (simp add: slash_def)
qed

lemma unsegments_last: "ss \<noteq> [] \<Longrightarrow> last ss \<noteq> [] \<Longrightarrow> last (unsegments ss) = last (last ss)"
proof (induction ss rule: unsegments.induct)
  case 1
  then show ?case by simp
next
  case (2 s)
  then show ?case by simp
next
  case (3 s t ss)
  then have "unsegments (t # ss) \<noteq> []"
    using unsegments_nonempty [of "last (t # ss)" "t # ss"] by simp
  with 3 show ?case by simp
qed

lemma safeJoinInTours_no_name:
  assumes wd: "wd = slash # rest" and b: "basename filename = [] \<or> basename filename = ''.''"
  shows "safeJoinInTours wd filename = TOURS_DIR wd"
proof -
  obtain D where ne: "D \<noteq> []"
    and D: "\<forall>s \<in> set D. s \<noteq> [] \<and> s \<noteq> ''.'' \<and> s \<noteq> ''..'' \<and> slash \<notin> set s"
    and T: "TOURS_DIR wd = slash # unsegments D"
    using TOURS_DIR_absolute [OF wd] by blast
  have Dp: "\<forall>s \<in> set D. s \<noteq> [] \<and> s \<noteq> ''.'' \<and> s \<noteq> ''..''" using D by blast
  have q: "unsegments D \<noteq> []"
    using ne D unsegments_nonempty [of "hd D" D] by simp
  have lastD: "last (unsegments D) \<noteq> slash"
    using unsegments_last [of D] ne D by (metis last_in_set)
  have same: "path_normalize (slash # unsegments D) = slash # unsegments D"
  proof -
    have "segments (slash # unsegments D) = [] # D"
      using segments_unsegments [of D] ne D by simp
    then have "normalizeString False [] (segments (slash # unsegments D)) = D"
      using normalizeString_plain [OF Dp, of False "[]"] by simp
    with q lastD show ?thesis by (simp add: path_normalize_def Let_def slash_def)
  qed
  have dot: "path_normalize (slash # unsegments D @ slash # ''.'') = slash # unsegments D"
  proof -
    let ?P = "slash # unsegments D @ slash # ''.''"
    have P: "?P = slash # unsegments (D @ [''.''])"
      using ne by (simp add: unsegments_snoc)
    have "segments (slash # unsegments (D @ [''.''])) = [] # (D @ [''.''])"
      using segments_unsegments [of "D @ [''.'']"] D by (simp add: slash_def)
    moreover have "normalizeString False [] ([] # (D @ [''.''])) = D"
      unfolding normalizeString.simps normalizeString_append [of False "[]" D]
        normalizeString_plain [OF Dp] by simp
    ultimately have ns: "normalizeString False [] (segments ?P) = D"
      unfolding P by simp
    have "?P \<noteq> []" "hd ?P = slash" "last ?P \<noteq> slash"
      by (simp_all add: slash_def)
    with q ns show ?thesis
      unfolding path_normalize_def Let_def by (simp add: slash_def)
  qed
  have arg: "(if filename \<noteq> [] then filename else []) = filename" by simp
  from b show ?thesis
  proof
    assume "basename filename = []"
    then show ?thesis
      unfolding safeJoinInTours_def arg using T same by (simp add: path_join_def)
  next
    assume "basename filename = ''.''"
    then show ?thesis
      unfolding safeJoinInTours_def arg using T dot by (simp add: path_join_def)
  qed
qed

text \<open>What the two rules of step 3 mark, when the updated document has a gallery array:
  the names, what is attempted for them and what becomes of the files.\<close>

lemma marking_rules:
  assumes "findById e (params_id req) = DbDoc bef"
    and "findByIdAndUpdate e (params_id req) (body req) = DbDoc updated"
    and "images updated = Some new"
  shows "\<exists>names.
     toDelete (cwd e) (body req) bef updated = Inr (map (safeJoinInTours (cwd e)) names) \<and>
     (\<forall>n. n \<in> set names \<longleftrightarrow>
        (body req ''imageCover'' \<noteq> None \<and> imageCover bef = Some n \<and> n \<noteq> [] \<and>
         imageCover updated \<noteq> Some n) \<or>
        (body req ''images'' \<noteq> None \<and> (\<exists>old. images bef = Some old \<and> n \<in> set old) \<and> n \<noteq> [] \<and>
         n \<notin> set new)) \<and>
     (\<forall>p. FsAccess p \<in> set (trace (snd (updateTour e sched req w))) \<longleftrightarrow>
        FsAccess p \<in> set (trace w) \<or> p \<in> safeJoinInTours (cwd e) ` set names) \<and>
     (\<forall>p \<in> disk w. p \<notin> safeJoinInTours (cwd e) ` set names \<longrightarrow>
        p \<in> disk (snd (updateTour e sched req w))) \<and>
     (\<forall>n \<in> set names. unlink_error e (safeJoinInTours (cwd e) n) = None \<longrightarrow>
        safeJoinInTours (cwd e) n \<notin> disk (snd (updateTour e sched req w)))"
proof -
  define names where "names =
     (if body req ''imageCover'' \<noteq> None then
        (case imageCover bef of
           Some c \<Rightarrow> if c \<noteq> [] \<and> imageCover updated \<noteq> Some c then [c] else []
         | None \<Rightarrow> [])
      else []) @
     (if body req ''images'' \<noteq> None then
        (case images bef of
           Some old \<Rightarrow> filter (\<lambda>n. n \<noteq> [] \<and> n \<notin> set new) old
         | None \<Rightarrow> [])
      else [])"
  define paths where "paths = map (safeJoinInTours (cwd e)) names"
  define w2 where "w2 = w\<lparr>trace := trace w @ [DbFind (params_id req), DbUpdate (params_id req)]\<rparr>"
  have td: "toDelete (cwd e) (body req) bef updated = Inr paths"
    unfolding paths_def names_def by (rule toDelete_names [OF assms(3)])
  have mem: "n \<in> set names \<longleftrightarrow>
        (body req ''imageCover'' \<noteq> None \<and> imageCover bef = Some n \<and> n \<noteq> [] \<and>
         imageCover updated \<noteq> Some n) \<or>
        (body req ''images'' \<noteq> None \<and> (\<exists>old. images bef = Some old \<and> n \<in> set old) \<and> n \<noteq> [] \<and>
         n \<notin> set new)" for n
    unfolding names_def
    by (cases "body req ''imageCover'' = None"; cases "body req ''images'' = None";
        cases "imageCover bef"; cases "images bef"; auto)
  have run: "snd (updateTour e sched req w) =
      (if paths \<noteq> [] then snd (allSettled e sched paths w2) else w2)"
    using assms(1,2) td by (simp add: updateTour_def Let_def w2_def)
  have ne: "p \<noteq> []" if "p \<in> set paths" for p
    using that safeJoinInTours_nonempty by (auto simp: paths_def)
  have img: "set paths = safeJoinInTours (cwd e) ` set names"
    by (simp add: paths_def)
  have tr2: "FsAccess p \<in> set (trace w2) \<longleftrightarrow> FsAccess p \<in> set (trace w)" for p
    by (simp add: w2_def)
  have dk2: "disk w2 = disk w" by (simp add: w2_def)
  have acc: "FsAccess p \<in> set (trace (snd (updateTour e sched req w))) \<longleftrightarrow>
        FsAccess p \<in> set (trace w) \<or> p \<in> safeJoinInTours (cwd e) ` set names" for p
  proof (cases "paths = []")
    case True
    with run tr2 img show ?thesis by simp
  next
    case False
    obtain ts w' where a: "allSettled e sched paths w2 = (ts, w')" by fastforce
    have "FsAccess p \<in> set (trace w') \<longleftrightarrow>
        FsAccess p \<in> set (trace w2) \<or> (p \<in> set paths \<and> p \<noteq> [])"
      using allSettled_access [OF a] .
    with ne [of p] tr2 img False run a show ?thesis by auto
  qed
  have keep: "p \<in> disk (snd (updateTour e sched req w))"
    if "p \<in> disk w" "p \<notin> safeJoinInTours (cwd e) ` set names" for p
  proof (cases "paths = []")
    case True
    with run that dk2 show ?thesis by simp
  next
    case False
    obtain ts w' where a: "allSettled e sched paths w2 = (ts, w')" by fastforce
    have "disk w2 - set paths \<subseteq> disk w'" using allSettled_frame [OF a] by simp
    with that img dk2 have "p \<in> disk w'" by auto
    with False run a show ?thesis by simp
  qed
  have gone: "safeJoinInTours (cwd e) n \<notin> disk (snd (updateTour e sched req w))"
    if "n \<in> set names" "unlink_error e (safeJoinInTours (cwd e) n) = None" for n
  proof -
    have p: "safeJoinInTours (cwd e) n \<in> set paths" using that(1) img by blast
    then have "paths \<noteq> []" by auto
    obtain ts w' where a: "allSettled e sched paths w2 = (ts, w')" by fastforce
    have "safeJoinInTours (cwd e) n \<notin> disk w'"
      using allSettled_gone [OF a p ne [OF p] that(2)] .
    with \<open>paths \<noteq> []\<close> run a show ?thesis by simp
  qed
  show ?thesis
  proof (intro exI [of _ names] conjI allI ballI impI)
    show "toDelete (cwd e) (body req) bef updated = Inr (map (safeJoinInTours (cwd e)) names)"
      using td by (simp add: paths_def)
    show "n \<in> set names \<longleftrightarrow>
        (body req ''imageCover'' \<noteq> None \<and> imageCover bef = Some n \<and> n \<noteq> [] \<and>
         imageCover updated \<noteq> Some n) \<or>
        (body req ''images'' \<noteq> None \<and> (\<exists>old. images bef = Some old \<and> n \<in> set old) \<and> n \<noteq> [] \<and>
         n \<notin> set new)" for n by (rule mem)
    show "FsAccess p \<in> set (trace (snd (updateTour e sched req w))) \<longleftrightarrow>
        FsAccess p \<in> set (trace w) \<or> p \<in> safeJoinInTours (cwd e) ` set names" for p by (rule acc)
    show "p \<in> disk (snd (updateTour e sched req w))"
      if "p \<in> disk w" "p \<notin> safeJoinInTours (cwd e) ` set names" for p using that by (rule keep)
    show "safeJoinInTours (cwd e) n \<notin> disk (snd (updateTour e sched req w))"
      if "n \<in> set names" "unlink_error e (safeJoinInTours (cwd e) n) = None" for n
      using that by (rule gone)
  qed
qed

text \<open>When the updated document has no gallery array, the gallery rule throws at the first
  non-empty before-gallery name: the handler leaves with the TypeError after the record
  was written, and nothing is deleted.\<close>

lemma null_gallery_type_error:
  "updateTour (stub_env (DbDoc ex_before)
       (DbDoc \<lparr>imageCover = Some ''tour-7-200-cover.jpeg'', images = None\<rparr>) (\<lambda>p. None)) []
     ex_request ex_world =
   (NextError (Exn ''TypeError''), ex_world\<lparr>trace := [DbFind ''7'', DbUpdate ''7'']\<rparr>)"
  by (simp add: updateTour_def toDelete_def stub_env_def ex_before_def ex_request_def ex_world_def
      Let_def)

section \<open>The claims\<close>

text \<open>
  Claim C1 fails on the code. Each callback pushes its file name after its own
  \<open>await\<close>, so \<open>newBody.images\<close> is in the order in which the pipelines finish. With
  two gallery uploads of which the second finishes first, position 0 of the array
  holds the name with index 2 and position 1 the name with index 1.
\<close>

theorem gallery_in_completion_order:
  "\<not> isl (fst (resizeTourImages (stub_env DbNull DbNull (\<lambda>p. None)) 200 [1, 0] ex_upload_request {})) \<and>
   body (projr (fst (resizeTourImages (stub_env DbNull DbNull (\<lambda>p. None)) 200 [1, 0] ex_upload_request {})))
     ''images'' = Some (JArr [JStr ''tour-7-200-2.jpeg'', JStr ''tour-7-200-1.jpeg''])"
  by code_simp

text \<open>
  Claim C2 fails on the code. The cover rule compares the before-cover with the
  after-cover only, and the gallery rule looks at the after-gallery only. When the
  update makes the old cover the only gallery image and installs a new cover, the
  handler answers 200 with a record whose gallery names the old cover, and it has
  unlinked that very file.
\<close>

theorem old_cover_deleted_while_in_new_gallery:
  "fst (updateTour (stub_env (DbDoc ex_before) (DbDoc ex_promoted) (\<lambda>p. None)) [] ex_promote_request ex_world) =
     Json 200 ex_promoted \<and>
   images ex_promoted = Some [''tour-7-100-cover.jpeg''] \<and>
   safeJoinInTours ''/app'' ''tour-7-100-cover.jpeg'' \<in> disk ex_world \<and>
   FsUnlink (safeJoinInTours ''/app'' ''tour-7-100-cover.jpeg'') \<in>
     set (trace (snd (updateTour (stub_env (DbDoc ex_before) (DbDoc ex_promoted) (\<lambda>p. None)) []
                        ex_promote_request ex_world))) \<and>
   safeJoinInTours ''/app'' ''tour-7-100-cover.jpeg'' \<notin>
     disk (snd (updateTour (stub_env (DbDoc ex_before) (DbDoc ex_promoted) (\<lambda>p. None)) []
                  ex_promote_request ex_world))"
  by code_simp

text \<open>
  Claim C3 fails on the code, in its last clause. The cover rule marks the before-cover
  whenever it differs from the after-cover and does not look at the after-gallery. For
  a tour whose cover \<open>a.jpeg\<close> is also a gallery image, an update that installs the
  cover \<open>c.jpeg\<close> and keeps \<open>a.jpeg\<close> in the gallery marks \<open>a.jpeg\<close>, a name present in
  both the before- and the after-gallery, and unlinks its file. (The rules (a) and (b)
  themselves are as the claim says: lemma \<open>marking_rules\<close>.)
\<close>

theorem name_in_both_galleries_marked:
  "images ex_shared_before = Some [''a.jpeg'', ''b.jpeg''] \<and>
   images ex_shared_updated = Some [''a.jpeg''] \<and>
   toDelete ''/app'' (body ex_shared_request) ex_shared_before ex_shared_updated =
     Inr [safeJoinInTours ''/app'' ''a.jpeg'', safeJoinInTours ''/app'' ''b.jpeg''] \<and>
   safeJoinInTours ''/app'' ''a.jpeg'' = ''/app/public/img/tours/a.jpeg'' \<and>
   fst (updateTour (stub_env (DbDoc ex_shared_before) (DbDoc ex_shared_updated) (\<lambda>p. None)) []
          ex_shared_request ex_shared_world) = Json 200 ex_shared_updated \<and>
   ''/app/public/img/tours/a.jpeg'' \<in> disk ex_shared_world \<and>
   FsUnlink ''/app/public/img/tours/a.jpeg'' \<in>
     set (trace (snd (updateTour (stub_env (DbDoc ex_shared_before) (DbDoc ex_shared_updated) (\<lambda>p. None)) []
                        ex_shared_request ex_shared_world))) \<and>
   ''/app/public/img/tours/a.jpeg'' \<notin>
     disk (snd (updateTour (stub_env (DbDoc ex_shared_before) (DbDoc ex_shared_updated) (\<lambda>p. None)) []
                  ex_shared_request ex_shared_world))"
  by code_simp

text \<open>
  Claim C4. When the update of the record store fails, by rejecting the write or by
  returning no document, \<open>updateTour\<close> ends with an error (the store's own, or the 500
  error \<open>Failed to update the tour\<close>); the read and the update are the only calls it has
  issued, so no deletion is attempted, and every file of the image store is still
  there.
\<close>

theorem update_failure_deletes_nothing:
  assumes "findById e (params_id req) = DbDoc bef"
    and "findByIdAndUpdate e (params_id req) (body req) = DbThrows msg \<or>
         findByIdAndUpdate e (params_id req) (body req) = DbNull"
  shows "fst (updateTour e sched req w) =
       (if findByIdAndUpdate e (params_id req) (body req) = DbNull
        then NextError (AppError ''Failed to update the tour'' 500) else NextError (Exn msg)) \<and>
     disk (snd (updateTour e sched req w)) = disk w \<and>
     trace (snd (updateTour e sched req w)) =
       trace w @ [DbFind (params_id req), DbUpdate (params_id req)]"
  using assms by (auto simp: updateTour_def Let_def)

theorem update_failure_deletes_nothing_witness:
  "findById (stub_env (DbDoc ex_before) (DbThrows ''ValidationError'') (\<lambda>p. None)) (params_id ex_request) =
     DbDoc ex_before \<and>
   findByIdAndUpdate (stub_env (DbDoc ex_before) (DbThrows ''ValidationError'') (\<lambda>p. None))
     (params_id ex_request) (body ex_request) = DbThrows ''ValidationError'' \<and>
   fst (updateTour (stub_env (DbDoc ex_before) (DbThrows ''ValidationError'') (\<lambda>p. None)) [] ex_request ex_world) =
     NextError (Exn ''ValidationError'') \<and>
   disk (snd (updateTour (stub_env (DbDoc ex_before) (DbThrows ''ValidationError'') (\<lambda>p. None)) [] ex_request ex_world)) =
     disk ex_world \<and>
   trace (snd (updateTour (stub_env (DbDoc ex_before) (DbThrows ''ValidationError'') (\<lambda>p. None)) [] ex_request ex_world)) =
     [DbFind ''7'', DbUpdate ''7'']"
proof -
  let ?e = "stub_env (DbDoc ex_before) (DbThrows ''ValidationError'') (\<lambda>p. None)"
  have h1: "findById ?e (params_id ex_request) = DbDoc ex_before"
    by (simp add: stub_env_def)
  have h2: "findByIdAndUpdate ?e (params_id ex_request) (body ex_request) = DbThrows ''ValidationError''"
    by (simp add: stub_env_def)
  have h2': "findByIdAndUpdate ?e (params_id ex_request) (body ex_request) = DbThrows ''ValidationError'' \<or>
     findByIdAndUpdate ?e (params_id ex_request) (body ex_request) = DbNull"
    using h2 by simp
  show ?thesis
    using h1 h2 update_failure_deletes_nothing [OF h1 h2', of "[]" ex_world]
    by (simp add: ex_request_def ex_world_def)
qed




text \<open>
  Claim C6. When \<open>Tour.findById\<close> finds no record, \<open>updateTour\<close> passes the 404 error
  \<open>No tour found with that ID\<close> to \<open>next\<close>; the read is the only call it has issued (no
  update of the record store, no access to the image store) and the image store is
  as it was.
\<close>

theorem missing_tour_404:
  assumes "findById e (params_id req) = DbNull"
  shows "fst (updateTour e sched req w) = NextError (AppError ''No tour found with that ID'' 404) \<and>
     disk (snd (updateTour e sched req w)) = disk w \<and>
     trace (snd (updateTour e sched req w)) = trace w @ [DbFind (params_id req)]"
  using assms by (simp add: updateTour_def Let_def)

theorem missing_tour_404_witness:
  "findById (stub_env DbNull DbNull (\<lambda>p. None)) (params_id ex_request) = DbNull \<and>
   fst (updateTour (stub_env DbNull DbNull (\<lambda>p. None)) [] ex_request ex_world) =
     NextError (AppError ''No tour found with that ID'' 404) \<and>
   disk (snd (updateTour (stub_env DbNull DbNull (\<lambda>p. None)) [] ex_request ex_world)) = disk ex_world \<and>
   trace (snd (updateTour (stub_env DbNull DbNull (\<lambda>p. None)) [] ex_request ex_world)) = [DbFind ''7'']"
proof -
  have h: "findById (stub_env DbNull DbNull (\<lambda>p. None)) (params_id ex_request) = DbNull"
    by (simp add: stub_env_def)
  show ?thesis
    using h missing_tour_404 [OF h, of "[]" ex_world]
    by (simp add: ex_request_def ex_world_def)
qed

text \<open>
  Claim C7 fails on the code. The comment above \<open>safeJoinInTours\<close> promises a path under
  \<open>TOURS_DIR\<close> for every file name. \<open>path.basename\<close> removes directories but keeps the
  name \<open>..\<close>, and \<open>path.join\<close> resolves it: for the file name \<open>..\<close> the result is the
  parent of the tours directory. (Every other file name stays in the tours directory,
  by the lemmas above.)
\<close>

theorem safeJoinInTours_parent_directory:
  "TOURS_DIR ''/app'' = ''/app/public/img/tours'' \<and>
   basename ''..'' = ''..'' \<and>
   safeJoinInTours ''/app'' ''..'' = ''/app/public/img''"
  by code_simp

text \<open>
  Claim C8. In a run of \<open>resizeTourImages\<close> that goes on to the next middleware, with
  \<open>now\<close> the one reading of the clock: an uploaded cover is written, and named in the
  payload, as \<open>tour-<id>-<now>-cover.jpeg\<close>; the \<open>k\<close>-th gallery upload (counting from 1)
  is written as \<open>tour-<id>-<now>-<k>.jpeg\<close>, and the payload's array holds these names,
  the one of upload \<open>i + 1\<close> where callback \<open>i\<close> finished; all names carry the same
  \<open>now\<close>; and the cover name and any number of gallery names are pairwise distinct.
\<close>

theorem resize_filenames:
  assumes "resizeTourImages e now sched req st = (Inr req', st')"
    and "files req = Some fl"
  shows "(\<forall>f fs. fl ''imageCover'' = Some (f # fs) \<longrightarrow>
            body req' ''imageCover'' =
              Some (JStr (''tour-'' @ params_id req @ ''-'' @ show_nat now @ ''-cover.jpeg'')) \<and>
            path_join [TOURS_DIR (cwd e),
              ''tour-'' @ params_id req @ ''-'' @ show_nat now @ ''-cover.jpeg''] \<in> st') \<and>
     (\<forall>g gs. fl ''images'' = Some (g # gs) \<longrightarrow>
            body req' ''images'' =
              Some (JArr (map (\<lambda>i. JStr (''tour-'' @ params_id req @ ''-'' @ show_nat now @ ''-'' @
                                           show_nat (i + 1) @ ''.jpeg''))
                            (completion_order (length (g # gs)) sched))) \<and>
            (\<forall>k. 1 \<le> k \<and> k \<le> length (g # gs) \<longrightarrow>
               path_join [TOURS_DIR (cwd e),
                 ''tour-'' @ params_id req @ ''-'' @ show_nat now @ ''-'' @ show_nat k @ ''.jpeg''] \<in> st')) \<and>
     (\<forall>n. distinct ((''tour-'' @ params_id req @ ''-'' @ show_nat now @ ''-cover.jpeg'') #
              map (\<lambda>i. ''tour-'' @ params_id req @ ''-'' @ show_nat now @ ''-'' @ show_nat (i + 1) @ ''.jpeg'')
                [0..<n]))"
proof -
  note p = resize_payload [OF assms] and s = resize_store [OF assms]
  have cov: "body req' ''imageCover'' =
              Some (JStr (''tour-'' @ params_id req @ ''-'' @ show_nat now @ ''-cover.jpeg'')) \<and>
            path_join [TOURS_DIR (cwd e),
              ''tour-'' @ params_id req @ ''-'' @ show_nat now @ ''-cover.jpeg''] \<in> st'"
    if "fl ''imageCover'' = Some (f # fs)" for f fs
    using p(1) s(1) that by (simp add: coverName_def)
  have gal: "body req' ''images'' =
              Some (JArr (map (\<lambda>i. JStr (''tour-'' @ params_id req @ ''-'' @ show_nat now @ ''-'' @
                                           show_nat (i + 1) @ ''.jpeg''))
                            (completion_order (length (g # gs)) sched))) \<and>
            (\<forall>k. 1 \<le> k \<and> k \<le> length (g # gs) \<longrightarrow>
               path_join [TOURS_DIR (cwd e),
                 ''tour-'' @ params_id req @ ''-'' @ show_nat now @ ''-'' @ show_nat k @ ''.jpeg''] \<in> st')"
    if g: "fl ''images'' = Some (g # gs)" for g gs
  proof -
    have "body req' ''images'' = Some (JArr (map (\<lambda>i. JStr (galleryName (params_id req) now i))
               (completion_order (Suc (length gs)) sched)))"
      using p(2) g by blast
    then have a: "body req' ''images'' =
              Some (JArr (map (\<lambda>i. JStr (''tour-'' @ params_id req @ ''-'' @ show_nat now @ ''-'' @
                                           show_nat (i + 1) @ ''.jpeg''))
                            (completion_order (length (g # gs)) sched)))"
      by (simp add: galleryName_def)
    have "path_join [TOURS_DIR (cwd e),
                 ''tour-'' @ params_id req @ ''-'' @ show_nat now @ ''-'' @ show_nat k @ ''.jpeg''] \<in> st'"
      if k: "1 \<le> k \<and> k \<le> length (g # gs)" for k
    proof -
      from k have "k - 1 \<le> length gs" by auto
      with s(2) g have "path_join [TOURS_DIR (cwd e), galleryName (params_id req) now (k - 1)] \<in> st'"
        by blast
      with k show ?thesis by (simp add: galleryName_def)
    qed
    with a show ?thesis by blast
  qed
  have dis: "distinct ((''tour-'' @ params_id req @ ''-'' @ show_nat now @ ''-cover.jpeg'') #
              map (\<lambda>i. ''tour-'' @ params_id req @ ''-'' @ show_nat now @ ''-'' @ show_nat (i + 1) @ ''.jpeg'')
                [0..<n])" for n
    using names_distinct [of "params_id req" now n]
    unfolding coverName_def galleryName_def [abs_def] .
  from cov gal dis show ?thesis by blast
qed

theorem resize_filenames_witness:
  "files ex_upload_request = Some ex_files \<and>
   \<not> isl (fst (resizeTourImages (stub_env DbNull DbNull (\<lambda>p. None)) 200 [1, 0] ex_upload_request {})) \<and>
   body (projr (fst (resizeTourImages (stub_env DbNull DbNull (\<lambda>p. None)) 200 [1, 0] ex_upload_request {})))
     ''imageCover'' = Some (JStr ''tour-7-200-cover.jpeg'') \<and>
   ''/app/public/img/tours/tour-7-200-cover.jpeg'' \<in>
     snd (resizeTourImages (stub_env DbNull DbNull (\<lambda>p. None)) 200 [1, 0] ex_upload_request {}) \<and>
   ''/app/public/img/tours/tour-7-200-2.jpeg'' \<in>
     snd (resizeTourImages (stub_env DbNull DbNull (\<lambda>p. None)) 200 [1, 0] ex_upload_request {}) \<and>
   distinct [''tour-7-200-cover.jpeg'', ''tour-7-200-1.jpeg'', ''tour-7-200-2.jpeg'']"
proof -
  let ?e = "stub_env DbNull DbNull (\<lambda>p. None)"
  let ?out = "resizeTourImages ?e 200 [1, 0] ex_upload_request {}"
  have f: "files ex_upload_request = Some ex_files" by (simp add: ex_upload_request_def)
  have r: "?out = (Inr (projr (fst ?out)), snd ?out)" by (rule ex_upload_result)
  have ok: "\<not> isl (fst ?out)" by (subst r) simp
  have c: "ex_files ''imageCover'' = Some [\<lparr>mimetype = ''image/png'', buffer = [137, 80, 78, 71]\<rparr>]"
    by (simp add: ex_files_def)
  have g: "ex_files ''images'' = Some [\<lparr>mimetype = ''image/jpeg'', buffer = [255, 216, 1]\<rparr>,
                       \<lparr>mimetype = ''image/jpeg'', buffer = [255, 216, 2]\<rparr>]"
    by (simp add: ex_files_def)
  have n0: "''tour-'' @ params_id ex_upload_request @ ''-'' @ show_nat 200 @ ''-cover.jpeg'' =
      ''tour-7-200-cover.jpeg''" by code_simp
  have n2: "''tour-'' @ params_id ex_upload_request @ ''-'' @ show_nat 200 @ ''-'' @ show_nat 2 @ ''.jpeg'' =
      ''tour-7-200-2.jpeg''" by code_simp
  have p0: "path_join [TOURS_DIR (cwd ?e), ''tour-7-200-cover.jpeg''] =
      ''/app/public/img/tours/tour-7-200-cover.jpeg''" by code_simp
  have p2: "path_join [TOURS_DIR (cwd ?e), ''tour-7-200-2.jpeg''] =
      ''/app/public/img/tours/tour-7-200-2.jpeg''" by code_simp
  have m: "map (\<lambda>i. ''tour-'' @ params_id ex_upload_request @ ''-'' @ show_nat 200 @ ''-'' @
                       show_nat (i + 1) @ ''.jpeg'') [0..<2] =
      [''tour-7-200-1.jpeg'', ''tour-7-200-2.jpeg'']" by code_simp
  note t = resize_filenames [OF r f]
  from t c have "body (projr (fst ?out)) ''imageCover'' =
        Some (JStr (''tour-'' @ params_id ex_upload_request @ ''-'' @ show_nat 200 @ ''-cover.jpeg'')) \<and>
      path_join [TOURS_DIR (cwd ?e),
        ''tour-'' @ params_id ex_upload_request @ ''-'' @ show_nat 200 @ ''-cover.jpeg''] \<in> snd ?out"
    by blast
  then have cov: "body (projr (fst ?out)) ''imageCover'' = Some (JStr ''tour-7-200-cover.jpeg'') \<and>
      ''/app/public/img/tours/tour-7-200-cover.jpeg'' \<in> snd ?out"
    unfolding n0 p0 .
  from t g have "\<forall>k. 1 \<le> k \<and> k \<le> length [\<lparr>mimetype = ''image/jpeg'', buffer = [255, 216, 1]\<rparr>,
                       \<lparr>mimetype = ''image/jpeg'', buffer = [255::nat, 216, 2]\<rparr>] \<longrightarrow>
      path_join [TOURS_DIR (cwd ?e),
        ''tour-'' @ params_id ex_upload_request @ ''-'' @ show_nat 200 @ ''-'' @ show_nat k @ ''.jpeg''] \<in> snd ?out"
    by blast
  then have "path_join [TOURS_DIR (cwd ?e),
        ''tour-'' @ params_id ex_upload_request @ ''-'' @ show_nat 200 @ ''-'' @ show_nat 2 @ ''.jpeg''] \<in> snd ?out"
    by simp
  then have gal: "''/app/public/img/tours/tour-7-200-2.jpeg'' \<in> snd ?out"
    unfolding n2 p2 .
  from t have "distinct ((''tour-'' @ params_id ex_upload_request @ ''-'' @ show_nat 200 @ ''-cover.jpeg'') #
      map (\<lambda>i. ''tour-'' @ params_id ex_upload_request @ ''-'' @ show_nat 200 @ ''-'' @
                 show_nat (i + 1) @ ''.jpeg'') [0..<2])"
    by blast
  then have dis: "distinct [''tour-7-200-cover.jpeg'', ''tour-7-200-1.jpeg'', ''tour-7-200-2.jpeg'']"
    unfolding n0 m .
  from f ok cov gal dis show ?thesis by blast
qed

text \<open>
  Claim C9. When no file was uploaded (\<open>req.files\<close> is missing, or has neither field, or
  only empty arrays), \<open>resizeTourImages\<close> goes on to the next middleware with the
  request as it came: the body has the same fields with the same values, so a cover
  or gallery field is there only if the client sent it, and nothing is written to
  the image store.
\<close>

theorem resize_without_files:
  assumes "files req = None \<or>
    (\<exists>fl. files req = Some fl \<and> fl ''imageCover'' \<in> {None, Some []} \<and> fl ''images'' \<in> {None, Some []})"
  shows "resizeTourImages e now sched req st = (Inr req, st)"
  using assms by (auto simp: resizeTourImages_def)

theorem resize_without_files_witness:
  "files ex_plain_request = Some Map.empty \<and>
   resizeTourImages (stub_env DbNull DbNull (\<lambda>p. None)) 200 [] ex_plain_request {} =
     (Inr ex_plain_request, {}) \<and>
   body ex_plain_request ''imageCover'' = Some (JStr ''client.jpeg'') \<and>
   body ex_plain_request ''images'' = None"
proof -
  have f: "files ex_plain_request = Some Map.empty" by (simp add: ex_plain_request_def)
  then have h: "files ex_plain_request = None \<or>
    (\<exists>fl. files ex_plain_request = Some fl \<and> fl ''imageCover'' \<in> {None, Some []} \<and>
          fl ''images'' \<in> {None, Some []})"
    by simp
  show ?thesis
    using f resize_without_files [OF h, of "stub_env DbNull DbNull (\<lambda>p. None)" 200 "[]" "{}"]
    by (simp add: ex_plain_request_def)
qed

text \<open>
  Claim C10. In a run of \<open>resizeTourImages\<close> with uploads that goes on to the next
  middleware, the payload has the generated cover name under \<open>imageCover\<close> when a cover
  was uploaded and the generated gallery names under \<open>images\<close> when gallery files were
  uploaded, whatever the client sent under these keys; a cover or gallery field for
  which nothing was uploaded, and every other field of the body, is as the client
  sent it.
\<close>

theorem resize_merge_precedence:
  assumes "resizeTourImages e now sched req st = (Inr req', st')"
    and "files req = Some fl"
  shows "(\<forall>f fs. fl ''imageCover'' = Some (f # fs) \<longrightarrow>
            body req' ''imageCover'' = Some (JStr (coverName (params_id req) now))) \<and>
     (\<forall>g gs. fl ''images'' = Some (g # gs) \<longrightarrow>
            body req' ''images'' =
              Some (JArr (map (\<lambda>i. JStr (galleryName (params_id req) now i))
                            (completion_order (length (g # gs)) sched)))) \<and>
     (fl ''imageCover'' \<in> {None, Some []} \<longrightarrow> body req' ''imageCover'' = body req ''imageCover'') \<and>
     (fl ''images'' \<in> {None, Some []} \<longrightarrow> body req' ''images'' = body req ''images'') \<and>
     (\<forall>k. k \<noteq> ''imageCover'' \<and> k \<noteq> ''images'' \<longrightarrow> body req' k = body req k) \<and>
     params_id req' = params_id req \<and> files req' = files req"
  using resize_payload [OF assms] by simp

theorem resize_merge_precedence_witness:
  "files ex_upload_request = Some ex_files \<and>
   \<not> isl (fst (resizeTourImages (stub_env DbNull DbNull (\<lambda>p. None)) 200 [] ex_upload_request {})) \<and>
   body ex_upload_request ''imageCover'' = Some (JStr ''client.jpeg'') \<and>
   body (projr (fst (resizeTourImages (stub_env DbNull DbNull (\<lambda>p. None)) 200 [] ex_upload_request {})))
     ''imageCover'' = Some (JStr ''tour-7-200-cover.jpeg'') \<and>
   body (projr (fst (resizeTourImages (stub_env DbNull DbNull (\<lambda>p. None)) 200 [] ex_upload_request {})))
     ''name'' = Some (JStr ''The Forest Hiker'')"
proof -
  let ?e = "stub_env DbNull DbNull (\<lambda>p. None)"
  let ?out = "resizeTourImages ?e 200 [] ex_upload_request {}"
  have f: "files ex_upload_request = Some ex_files" by (simp add: ex_upload_request_def)
  have r: "?out = (Inr (projr (fst ?out)), snd ?out)" by (rule ex_upload_result)
  have ok: "\<not> isl (fst ?out)" by (subst r) simp
  have c: "ex_files ''imageCover'' = Some [\<lparr>mimetype = ''image/png'', buffer = [137, 80, 78, 71]\<rparr>]"
    by (simp add: ex_files_def)
  have b: "body ex_upload_request ''imageCover'' = Some (JStr ''client.jpeg'')"
    and n: "body ex_upload_request ''name'' = Some (JStr ''The Forest Hiker'')"
    and i: "params_id ex_upload_request = ''7''"
    by (simp_all add: ex_upload_request_def)
  note t = resize_merge_precedence [OF r f]
  have nm: "coverName ''7'' 200 = ''tour-7-200-cover.jpeg''" by code_simp
  from t c i have "body (projr (fst ?out)) ''imageCover'' = Some (JStr (coverName ''7'' 200))"
    by simp
  then have cov: "body (projr (fst ?out)) ''imageCover'' = Some (JStr ''tour-7-200-cover.jpeg'')"
    unfolding nm .
  from t have "\<forall>k. k \<noteq> ''imageCover'' \<and> k \<noteq> ''images'' \<longrightarrow>
      body (projr (fst ?out)) k = body ex_upload_request k"
    by blast
  then have "body (projr (fst ?out)) ''name'' = body ex_upload_request ''name''" by simp
  with n have oth: "body (projr (fst ?out)) ''name'' = Some (JStr ''The Forest Hiker'')" by simp
  from f ok b cov oth show ?thesis by blast
qed

end
